theory Spec2Isabelle
  imports Main "HOL-Library.Word"
begin

section \<open>Data model\<close>

text \<open>
  The package \<^verbatim>\<open>filterchain\<close> (file \<^verbatim>\<open>lib.go\<close>) has three structs: \<^verbatim>\<open>Store\<close>, a
  map from string keys to \<^verbatim>\<open>interface{}\<close> values behind a read/write lock; \<^verbatim>\<open>Chain\<close>, a
  cursor \<^verbatim>\<open>pos\<close> and a slice \<^verbatim>\<open>filters\<close> of \<^verbatim>\<open>Executer\<close>s; and the two stage
  wrappers \<^verbatim>\<open>serialFilter\<close> and \<^verbatim>\<open>parallelFilter\<close>.

  A Go \<^verbatim>\<open>error\<close> is an \<open>error option\<close> (\<open>None\<close> is \<^verbatim>\<open>nil\<close>); an
  \<^verbatim>\<open>interface{}\<close> value is an \<open>'a iface\<close> (\<open>Nil\<close> is the \<^verbatim>\<open>nil\<close> interface, which
  is also what a map lookup yields for a missing key).
\<close>

datatype error = Error string

datatype 'a iface = Nil | Val 'a

datatype "context" = TODO | Context nat

record 'a Store =
  data :: "string \<rightharpoonup> 'a iface"

text \<open>
  A filter body is an opaque Go callable \<^verbatim>\<open>func(*Chain, *Store) error\<close>. What such a body
  can do to the package's state is call the exported methods on the two pointers it
  receives, and read or update the variables its closure captured (the tests capture a
  \<^verbatim>\<open>uint64\<close> counter that they bump with \<^verbatim>\<open>atomic.AddUint64\<close>). A body is therefore
  modelled by the tree of the calls it makes, each node continuing with the value the call
  returned: \<open>StorePut\<close> and \<open>StoreGet\<close> are \<^verbatim>\<open>store.Put\<close> and \<^verbatim>\<open>store.Get\<close>,
  \<open>CallNext\<close> and \<open>CallExecute\<close> are \<^verbatim>\<open>chain.Next(store)\<close> and
  \<^verbatim>\<open>chain.Execute(store)\<close>, \<open>Modify\<close> and \<open>Inspect\<close> act on the captured variables
  (of type \<open>'e\<close>), and \<open>Return\<close> ends the body with its error result. A body hands on
  to \<^verbatim>\<open>Next\<close> and \<^verbatim>\<open>Execute\<close> the store it was given (the tests pass \<^verbatim>\<open>nil\<close> there, in
  chains whose bodies never touch the store). Bodies that add filters to the running
  chain, that keep pointers to other chains, that panic themselves or that do not return
  are not modelled. The constructor \<^verbatim>\<open>NewFilter\<close> the tests build their filters with is
  not among the package's files; it is taken to wrap the callable it is given.
\<close>

datatype ('a, 'e) Filter =
    Return "error option"
  | StorePut string "'a iface" "('a, 'e) Filter"
  | StoreGet string "'a iface \<times> bool \<Rightarrow> ('a, 'e) Filter"
  | Modify "'e \<Rightarrow> 'e" "('a, 'e) Filter"
  | Inspect "'e \<Rightarrow> ('a, 'e) Filter"
  | CallNext "error option \<Rightarrow> ('a, 'e) Filter"
  | CallExecute "error option \<Rightarrow> ('a, 'e) Filter"

text \<open>
  The entries of \<^verbatim>\<open>chain.filters\<close> are pointers to \<^verbatim>\<open>serialFilter{filter}\<close> or to
  \<^verbatim>\<open>parallelFilter{done, filters}\<close> objects: only \<^verbatim>\<open>AddFilters\<close> and
  \<^verbatim>\<open>AddParallelFilters\<close> append to the slice, and both wrap what they are given. Each
  such object is created by the call that appends it and is reachable through that one
  slice entry only, so the index of the entry serves as the object's address: writing
  \<^verbatim>\<open>pf.done = true\<close> is an update of the list at that index.
\<close>

datatype ('a, 'e) Executer =
    serialFilter "('a, 'e) Filter"
  | parallelFilter bool "('a, 'e) Filter list"

record ('a, 'e) Chain =
  Ctx :: "context"
  pos :: int
  filters :: "('a, 'e) Executer list"

text \<open>
  Everything a run can read or write: the chain, the store and the variables captured by
  the filter bodies. The functions below take this state and return the new one where the
  Go methods update the objects behind their pointers. The store's lock makes each
  \<^verbatim>\<open>Put\<close> and \<^verbatim>\<open>Get\<close> one indivisible step.
\<close>

record ('a, 'e) heap =
  chain :: "('a, 'e) Chain"
  store :: "'a Store"
  env :: 'e

text \<open>
  A call either returns (the updated state and the Go \<^verbatim>\<open>error\<close>) or does not:
  \<open>Panic\<close> is Go's run-time panic for an index out of range, which no function of the
  package recovers; \<open>OutOfFuel\<close> belongs to the recursion bound of \<open>Execute_fuel\<close>
  below and is shown never to be the result of \<open>Chain_Execute\<close>.
\<close>

datatype fault = Panic | OutOfFuel

type_synonym ('a, 'e) outcome = "fault + ('a, 'e) heap \<times> error option"

section \<open>Store\<close>

definition Store_Put :: "'a Store \<Rightarrow> string \<Rightarrow> 'a iface \<Rightarrow> 'a Store" where
  "Store_Put s key v = s\<lparr>data := (data s)(key \<mapsto> v)\<rparr>"

definition Store_Get :: "'a Store \<Rightarrow> string \<Rightarrow> 'a iface \<times> bool" where
  "Store_Get s key = (case data s key of None \<Rightarrow> (Nil, False) | Some v \<Rightarrow> (v, True))"


section \<open>Building a chain\<close>

definition New :: "context option \<Rightarrow> ('a, 'e) Chain \<times> 'a Store" where
  "New ctx =
     (\<lparr>Ctx = (case ctx of None \<Rightarrow> TODO | Some c \<Rightarrow> c), pos = 0, filters = []\<rparr>,
      \<lparr>data = Map.empty\<rparr>)"

primrec AddFilters :: "('a, 'e) Chain \<Rightarrow> ('a, 'e) Filter list \<Rightarrow> ('a, 'e) Chain" where
  "AddFilters c [] = c"
| "AddFilters c (f # fs) = AddFilters (c\<lparr>filters := filters c @ [serialFilter f]\<rparr>) fs"

definition AddParallelFilters :: "('a, 'e) Chain \<Rightarrow> ('a, 'e) Filter list \<Rightarrow> ('a, 'e) Chain" where
  "AddParallelFilters c fs =
     (case fs of
        [] \<Rightarrow> c
      | [f] \<Rightarrow> AddFilters c [f]
      | _ \<Rightarrow> c\<lparr>filters := filters c @ [parallelFilter False fs]\<rparr>)"

section \<open>Running filters\<close>

text \<open>
  \<open>run_Filter nx ex f h\<close> runs the body \<open>f\<close> in state \<open>h\<close>; \<open>nx\<close> and \<open>ex\<close> are the
  chain's \<^verbatim>\<open>Next\<close> and \<^verbatim>\<open>Execute\<close> methods, which the body reaches through the chain
  pointer it is handed. A panic inside a call ends the run.
\<close>

primrec run_Filter ::
  "(('a, 'e) heap \<Rightarrow> ('a, 'e) outcome) \<Rightarrow> (('a, 'e) heap \<Rightarrow> ('a, 'e) outcome) \<Rightarrow>
   ('a, 'e) Filter \<Rightarrow> ('a, 'e) heap \<Rightarrow> ('a, 'e) outcome" where
  "run_Filter nx ex (Return err) = (\<lambda>h. Inr (h, err))"
| "run_Filter nx ex (StorePut k v f) =
     (\<lambda>h. run_Filter nx ex f (h\<lparr>store := Store_Put (store h) k v\<rparr>))"
| "run_Filter nx ex (StoreGet k f) = (\<lambda>h. run_Filter nx ex (f (Store_Get (store h) k)) h)"
| "run_Filter nx ex (Modify g f) = (\<lambda>h. run_Filter nx ex f (h\<lparr>env := g (env h)\<rparr>))"
| "run_Filter nx ex (Inspect f) = (\<lambda>h. run_Filter nx ex (f (env h)) h)"
| "run_Filter nx ex (CallNext f) =
     (\<lambda>h. case nx h of Inl x \<Rightarrow> Inl x | Inr (h', err) \<Rightarrow> run_Filter nx ex (f err) h')"
| "run_Filter nx ex (CallExecute f) =
     (\<lambda>h. case ex h of Inl x \<Rightarrow> Inl x | Inr (h', err) \<Rightarrow> run_Filter nx ex (f err) h')"

text \<open>
  The package's functions end a call with
  \<^verbatim>\<open>if err = ...; err != nil { return err }\<close> followed by \<^verbatim>\<open>return nil\<close>: \<open>return_err\<close>
  is that idiom applied to the outcome of the call.
\<close>

definition return_err :: "('a, 'e) outcome \<Rightarrow> ('a, 'e) outcome" where
  "return_err r =
     (case r of
        Inl x \<Rightarrow> Inl x
      | Inr (h, Some err) \<Rightarrow> Inr (h, Some err)
      | Inr (h, None) \<Rightarrow> Inr (h, None))"

definition serialFilter_Execute_body ::
  "(('a, 'e) heap \<Rightarrow> ('a, 'e) outcome) \<Rightarrow> (('a, 'e) heap \<Rightarrow> ('a, 'e) outcome) \<Rightarrow>
   ('a, 'e) Filter \<Rightarrow> ('a, 'e) heap \<Rightarrow> ('a, 'e) outcome" where
  "serialFilter_Execute_body nx ex f h = return_err (run_Filter nx ex f h)"

text \<open>
  \<^verbatim>\<open>parallelFilter.Execute\<close> starts one goroutine per owned filter with \<^verbatim>\<open>errgroup\<close>'s
  \<^verbatim>\<open>Go\<close> and joins them with \<^verbatim>\<open>Wait\<close>, which returns once all of them have returned,
  with the first non-nil error a goroutine returned (first in time; \<^verbatim>\<open>errOnce\<close> keeps it).

  The goroutines run interleaved. A goroutine advances by one call of its body at a time
  (\<open>step_Filter\<close>): a store access, an access to the captured variables (the tests use
  \<^verbatim>\<open>sync/atomic\<close> for those), or a call of \<^verbatim>\<open>chain.Next\<close> or \<^verbatim>\<open>chain.Execute\<close>, which is
  taken as one step together with everything it runs. Which goroutine advances next is
  the scheduler's choice: \<open>sch i\<close> is the list of its choices while the stage at index
  \<open>i\<close> runs, each choice \<open>k\<close> picking the goroutine at position \<open>k mod n\<close> among the
  \<open>n\<close> that have not returned yet. Once the list is used up, the goroutines that are left
  run one after the other, each to its end (\<open>finish_in_turn\<close>). Every interleaving of
  the goroutines' steps is the run of some list of choices, since every run is finite.
\<close>

datatype ('a, 'e) progress =
    Finished "error option" "('a, 'e) heap"
  | Running "('a, 'e) Filter" "('a, 'e) heap"
  | Faulted fault

definition step_Filter ::
  "(('a, 'e) heap \<Rightarrow> ('a, 'e) outcome) \<Rightarrow> (('a, 'e) heap \<Rightarrow> ('a, 'e) outcome) \<Rightarrow>
   ('a, 'e) Filter \<Rightarrow> ('a, 'e) heap \<Rightarrow> ('a, 'e) progress" where
  "step_Filter nx ex f h =
     (case f of
        Return err \<Rightarrow> Finished err h
      | StorePut k v f' \<Rightarrow> Running f' (h\<lparr>store := Store_Put (store h) k v\<rparr>)
      | StoreGet k f' \<Rightarrow> Running (f' (Store_Get (store h) k)) h
      | Modify g f' \<Rightarrow> Running f' (h\<lparr>env := g (env h)\<rparr>)
      | Inspect f' \<Rightarrow> Running (f' (env h)) h
      | CallNext f' \<Rightarrow>
          (case nx h of Inl x \<Rightarrow> Faulted x | Inr (h', err) \<Rightarrow> Running (f' err) h')
      | CallExecute f' \<Rightarrow>
          (case ex h of Inl x \<Rightarrow> Faulted x | Inr (h', err) \<Rightarrow> Running (f' err) h'))"

text \<open>
  \<open>finish_in_turn nx ex ts err h\<close>: the goroutines \<open>ts\<close> run one after the other;
  \<open>err\<close> is the group's recorded error so far.
\<close>

primrec finish_in_turn ::
  "(('a, 'e) heap \<Rightarrow> ('a, 'e) outcome) \<Rightarrow> (('a, 'e) heap \<Rightarrow> ('a, 'e) outcome) \<Rightarrow>
   ('a, 'e) Filter list \<Rightarrow> error option \<Rightarrow> ('a, 'e) heap \<Rightarrow> ('a, 'e) outcome" where
  "finish_in_turn nx ex [] err = (\<lambda>h. Inr (h, err))"
| "finish_in_turn nx ex (f # fs) err =
     (\<lambda>h. case return_err (run_Filter nx ex f h) of
            Inl x \<Rightarrow> Inl x
          | Inr (h', e) \<Rightarrow>
              finish_in_turn nx ex fs (case err of None \<Rightarrow> e | Some e0 \<Rightarrow> Some e0) h')"

definition remove_nth :: "nat \<Rightarrow> 'b list \<Rightarrow> 'b list" where
  "remove_nth j xs = take j xs @ drop (Suc j) xs"

type_synonym sched = "nat \<Rightarrow> nat list"

text \<open>
  \<open>errgroup_Wait nx ex choices ts err h\<close>: the goroutines \<open>ts\<close> have not returned yet
  (each is what is left of its body), \<open>err\<close> is the group's recorded error so far, and
  \<open>choices\<close> are the scheduler's choices still to come.
\<close>

primrec errgroup_Wait ::
  "(('a, 'e) heap \<Rightarrow> ('a, 'e) outcome) \<Rightarrow> (('a, 'e) heap \<Rightarrow> ('a, 'e) outcome) \<Rightarrow>
   nat list \<Rightarrow> ('a, 'e) Filter list \<Rightarrow> error option \<Rightarrow> ('a, 'e) heap \<Rightarrow> ('a, 'e) outcome" where
  "errgroup_Wait nx ex [] = (\<lambda>ts err h. finish_in_turn nx ex ts err h)"
| "errgroup_Wait nx ex (k # choices) =
     (\<lambda>ts err h.
        if ts = [] then Inr (h, err)
        else (let j = k mod length ts in
              case step_Filter nx ex (ts ! j) h of
                Faulted x \<Rightarrow> Inl x
              | Finished e h' \<Rightarrow>
                  errgroup_Wait nx ex choices (remove_nth j ts)
                    (case err of None \<Rightarrow> e | Some e0 \<Rightarrow> Some e0) h'
              | Running f' h' \<Rightarrow> errgroup_Wait nx ex choices (ts[j := f']) err h'))"

definition set_done :: "nat \<Rightarrow> ('a, 'e) Filter list \<Rightarrow> ('a, 'e) heap \<Rightarrow> ('a, 'e) heap" where
  "set_done i fs h =
     h\<lparr>chain := (chain h)\<lparr>filters := (filters (chain h))[i := parallelFilter True fs]\<rparr>\<rparr>"

text \<open>
  The receiver \<^verbatim>\<open>pf\<close> of \<^verbatim>\<open>parallelFilter.Execute\<close> is the object at index \<open>i\<close> of the
  chain's slice, and \<open>fs\<close> is its field \<^verbatim>\<open>pf.filters\<close>, which nothing writes after
  \<^verbatim>\<open>AddParallelFilters\<close> has built the object.
\<close>

definition parallelFilter_Execute_body ::
  "(('a, 'e) heap \<Rightarrow> ('a, 'e) outcome) \<Rightarrow> (('a, 'e) heap \<Rightarrow> ('a, 'e) outcome) \<Rightarrow>
   sched \<Rightarrow> nat \<Rightarrow> ('a, 'e) Filter list \<Rightarrow> ('a, 'e) heap \<Rightarrow> ('a, 'e) outcome" where
  "parallelFilter_Execute_body nx ex sch i fs h =
     (case errgroup_Wait nx ex (sch i) fs None h of
        Inl x \<Rightarrow> Inl x
      | Inr (h', Some err) \<Rightarrow> Inr (h', Some err)
      | Inr (h', None) \<Rightarrow> nx (set_done i fs h'))"

section \<open>The chain's cursor\<close>

text \<open>
  \<^verbatim>\<open>Chain.Execute\<close> and \<^verbatim>\<open>Chain.Next\<close>, with the methods the called stage reaches through
  the chain pointer as parameters. Indexing the slice out of range panics.
\<close>

definition Chain_Execute_body ::
  "(('a, 'e) heap \<Rightarrow> ('a, 'e) outcome) \<Rightarrow> (('a, 'e) heap \<Rightarrow> ('a, 'e) outcome) \<Rightarrow>
   sched \<Rightarrow> ('a, 'e) heap \<Rightarrow> ('a, 'e) outcome" where
  "Chain_Execute_body nx ex sch h =
     (let p = pos (chain h) in
      if p < int (length (filters (chain h))) then
        (let h' = h\<lparr>chain := (chain h)\<lparr>pos := p + 1\<rparr>\<rparr> in
         if p < 0 then Inl Panic
         else return_err
               (case filters (chain h') ! nat p of
                  serialFilter f \<Rightarrow> serialFilter_Execute_body nx ex f h'
                | parallelFilter d fs \<Rightarrow> parallelFilter_Execute_body nx ex sch (nat p) fs h'))
      else Inr (h, None))"

definition Chain_Next_body ::
  "(('a, 'e) heap \<Rightarrow> ('a, 'e) outcome) \<Rightarrow> ('a, 'e) heap \<Rightarrow> ('a, 'e) outcome" where
  "Chain_Next_body ex h =
     (let p = pos (chain h) - 1 in
      if p < 0 \<or> int (length (filters (chain h))) \<le> p then Inl Panic
      else (case filters (chain h) ! nat p of
              parallelFilter d fs \<Rightarrow> if d then ex h else Inr (h, None)
            | serialFilter f \<Rightarrow> ex h))"

text \<open>
  The recursion of \<^verbatim>\<open>Execute\<close> through the stages it runs is bounded by the number of
  nested calls: \<open>Execute_fuel sch n\<close> allows \<open>n\<close> of them. \<open>Chain_Execute\<close> allows as
  many as there are stages left, which is enough (\<open>Chain_Execute_fuel\<close>,
  \<open>Chain_Execute_unfold\<close> and \<open>Chain_Execute_returns\<close> below).
\<close>

primrec Execute_fuel :: "sched \<Rightarrow> nat \<Rightarrow> ('a, 'e) heap \<Rightarrow> ('a, 'e) outcome" where
  "Execute_fuel sch 0 =
     (\<lambda>h. if pos (chain h) < int (length (filters (chain h))) then Inl OutOfFuel
          else Inr (h, None))"
| "Execute_fuel sch (Suc n) =
     (\<lambda>h. Chain_Execute_body (Chain_Next_body (Execute_fuel sch n)) (Execute_fuel sch n) sch h)"

definition remaining :: "('a, 'e) Chain \<Rightarrow> nat" where
  "remaining c = nat (int (length (filters c)) - pos c)"

definition Chain_Execute :: "sched \<Rightarrow> ('a, 'e) heap \<Rightarrow> ('a, 'e) outcome" where
  "Chain_Execute sch h = Execute_fuel sch (remaining (chain h)) h"

definition Chain_Next :: "sched \<Rightarrow> ('a, 'e) heap \<Rightarrow> ('a, 'e) outcome" where
  "Chain_Next sch h = Chain_Next_body (Chain_Execute sch) h"

definition serialFilter_Execute ::
  "sched \<Rightarrow> ('a, 'e) Filter \<Rightarrow> ('a, 'e) heap \<Rightarrow> ('a, 'e) outcome" where
  "serialFilter_Execute sch f h =
     serialFilter_Execute_body (Chain_Next sch) (Chain_Execute sch) f h"

definition parallelFilter_Execute ::
  "sched \<Rightarrow> nat \<Rightarrow> ('a, 'e) Filter list \<Rightarrow> ('a, 'e) heap \<Rightarrow> ('a, 'e) outcome" where
  "parallelFilter_Execute sch i fs h =
     parallelFilter_Execute_body (Chain_Next sch) (Chain_Execute sch) sch i fs h"

text \<open>The interface call \<^verbatim>\<open>chain.filters[pos].Execute(chain, store)\<close>.\<close>

definition Executer_Execute ::
  "sched \<Rightarrow> nat \<Rightarrow> ('a, 'e) Executer \<Rightarrow> ('a, 'e) heap \<Rightarrow> ('a, 'e) outcome" where
  "Executer_Execute sch i st h =
     (case st of
        serialFilter f \<Rightarrow> serialFilter_Execute sch f h
      | parallelFilter d fs \<Rightarrow> parallelFilter_Execute sch i fs h)"

definition advance :: "('a, 'e) heap \<Rightarrow> ('a, 'e) heap" where
  "advance h = h\<lparr>chain := (chain h)\<lparr>pos := pos (chain h) + 1\<rparr>\<rparr>"

section \<open>Notions used in the statements\<close>

text \<open>
  \<open>stage_le s s'\<close>: \<open>s'\<close> is the stage \<open>s\<close>, except that a completion flag may have
  gone from false to true. \<open>chain_le c c'\<close>: a run can lead from \<open>c\<close> to \<open>c'\<close>: the
  context and the stages are the same up to such flags, the cursor has not moved back and
  has not passed the end, and the stages before the old cursor are untouched.
\<close>

fun stage_le :: "('a, 'e) Executer \<Rightarrow> ('a, 'e) Executer \<Rightarrow> bool" where
  "stage_le (serialFilter f) s = (s = serialFilter f)"
| "stage_le (parallelFilter d fs) s =
     (case s of serialFilter f \<Rightarrow> False | parallelFilter d' fs' \<Rightarrow> fs' = fs \<and> (d \<longrightarrow> d'))"

definition chain_le :: "('a, 'e) Chain \<Rightarrow> ('a, 'e) Chain \<Rightarrow> bool" where
  "chain_le c c' \<longleftrightarrow>
     Ctx c' = Ctx c \<and> pos c \<le> pos c' \<and> pos c' \<le> max (pos c) (int (length (filters c))) \<and>
     list_all2 stage_le (filters c) (filters c') \<and>
     take (nat (pos c)) (filters c') = take (nat (pos c)) (filters c)"

text \<open>
  \<open>outcome_sat F Q out\<close>: if \<open>out\<close> is a return, the chain it returns satisfies \<open>Q\<close>;
  a fault is allowed only when \<open>F\<close> holds.
\<close>

definition outcome_sat :: "bool \<Rightarrow> (('a, 'e) Chain \<Rightarrow> bool) \<Rightarrow> ('a, 'e) outcome \<Rightarrow> bool" where
  "outcome_sat F Q out = (case out of Inl x \<Rightarrow> F | Inr (g, e) \<Rightarrow> Q (chain g))"

definition progress_sat ::
  "bool \<Rightarrow> (('a, 'e) Chain \<Rightarrow> bool) \<Rightarrow> ('a, 'e) progress \<Rightarrow> bool" where
  "progress_sat F Q p =
     (case p of Finished e g \<Rightarrow> Q (chain g) | Running f g \<Rightarrow> Q (chain g) | Faulted x \<Rightarrow> F)"

definition in_run :: "nat \<Rightarrow> ('a, 'e) Chain \<Rightarrow> bool" where
  "in_run n c \<longleftrightarrow> 1 \<le> pos c \<and> pos c \<le> int (length (filters c)) \<and> remaining c \<le> n"




text \<open>
  \<open>no_calls f\<close>: the body \<open>f\<close> calls neither \<^verbatim>\<open>chain.Next\<close> nor \<^verbatim>\<open>chain.Execute\<close>.
  \<open>only_Next f\<close>: the body \<open>f\<close> never calls \<^verbatim>\<open>chain.Execute\<close> itself; it asks the chain
  to go on through \<^verbatim>\<open>chain.Next\<close> only.
\<close>

primrec no_calls :: "('a, 'e) Filter \<Rightarrow> bool" where
  "no_calls (Return err) = True"
| "no_calls (StorePut k v f) = no_calls f"
| "no_calls (StoreGet k f) = (\<forall>r. no_calls (f r))"
| "no_calls (Modify g f) = no_calls f"
| "no_calls (Inspect f) = (\<forall>r. no_calls (f r))"
| "no_calls (CallNext f) = False"
| "no_calls (CallExecute f) = False"


text \<open>
  The filters of the package's tests: one adds 1 to a captured \<^verbatim>\<open>uint64\<close> counter and
  returns \<^verbatim>\<open>chain.Next(nil)\<close>, one returns \<^verbatim>\<open>errors.New("filter execution failed")\<close>.
  \<open>test_heap fs\<close> is the state the tests of the parallel stage build: a new chain,
  \<^verbatim>\<open>AddParallelFilters(fs...)\<close>, \<^verbatim>\<open>chain.pos++\<close>, and the counter at 0.
\<close>

definition counting_filter :: "('a, 64 word) Filter" where
  "counting_filter = Modify (\<lambda>n. n + 1) (CallNext Return)"

definition failing_filter :: "('a, 'e) Filter" where
  "failing_filter = Return (Some (Error ''filter execution failed''))"


text \<open>
  States for the examples: \<open>serial_heap\<close> is a chain of one serial stage whose filter
  fails, with cursor 0; \<open>fresh_heap\<close> is what \<^verbatim>\<open>New\<close> returns; \<open>parallel_heap d\<close> is a
  parallel stage of two counting filters with completion flag \<open>d\<close>, followed by a serial
  stage, with cursor 1. \<open>sched0\<close> is some scheduler, with the same choices for every
  stage. \<open>in_range c\<close>: the cursor of \<open>c\<close> is between 1 and the number of stages.
\<close>

definition serial_heap :: "(nat, 64 word) heap" where
  "serial_heap =
     \<lparr>chain = \<lparr>Ctx = TODO, pos = 0, filters = [serialFilter failing_filter]\<rparr>,
      store = \<lparr>data = Map.empty\<rparr>, env = 0\<rparr>"

definition sched0 :: sched where
  "sched0 i = [2, 0, 1, 1, 0, 5, 3]"

definition fresh_heap :: "(nat, 64 word) heap" where
  "fresh_heap = (case New None of (c, s) \<Rightarrow> \<lparr>chain = c, store = s, env = 0\<rparr>)"

definition parallel_heap :: "bool \<Rightarrow> (nat, 64 word) heap" where
  "parallel_heap d =
     \<lparr>chain = \<lparr>Ctx = TODO, pos = 1,
               filters = [parallelFilter d [counting_filter, counting_filter],
                          serialFilter failing_filter]\<rparr>,
      store = \<lparr>data = Map.empty\<rparr>, env = 0\<rparr>"


section \<open>The cursor only moves forward\<close>

lemma return_err_id [simp]: "return_err r = r"
  by (simp add: return_err_def split: sum.splits option.splits)

lemma stage_le_refl: "stage_le s s"
  by (cases s) simp_all

lemma stage_le_trans: "stage_le a b \<Longrightarrow> stage_le b c \<Longrightarrow> stage_le a c"
  by (cases a; cases b; cases c) auto

lemma chain_le_refl: "chain_le c c"
  by (simp add: chain_le_def list_all2_refl stage_le_refl)

lemma chain_le_trans:
  assumes "chain_le a b" and "chain_le b c"
  shows "chain_le a c"
proof -
  have len: "length (filters b) = length (filters a)"
    using assms(1) by (auto simp: chain_le_def dest: list_all2_lengthD)
  have "list_all2 stage_le (filters a) (filters c)"
    using assms by (auto simp: chain_le_def elim: list_all2_trans[rotated] intro: stage_le_trans)
  moreover have "take (nat (pos a)) (filters c) = take (nat (pos a)) (filters a)"
  proof -
    have "take (nat (pos a)) (take (nat (pos b)) (filters c)) = take (nat (pos a)) (take (nat (pos b)) (filters b))"
      using assms(2) by (simp add: chain_le_def)
    moreover have "nat (pos a) \<le> nat (pos b)"
      using assms(1) by (auto simp: chain_le_def intro: nat_mono)
    then have "min (nat (pos a)) (nat (pos b)) = nat (pos a)"
      by (simp add: min_def)
    ultimately show ?thesis using assms(1) by (simp add: chain_le_def)
  qed
  ultimately show ?thesis
    using assms len by (auto simp: chain_le_def)
qed

text \<open>
  A property \<open>Q\<close> of the chain that \<^verbatim>\<open>Next\<close> and \<^verbatim>\<open>Execute\<close> keep is kept by
  everything built from them (a body, a step of a body, a group of goroutines), since
  nothing else writes the chain; and two pairs of such methods that agree wherever \<open>Q\<close>
  holds give the same runs from a state where \<open>Q\<close> holds.
\<close>

lemma run_Filter_sat:
  assumes nx: "\<And>g. Q (chain g) \<Longrightarrow> outcome_sat F Q (nx g)"
    and ex: "\<And>g. Q (chain g) \<Longrightarrow> outcome_sat F Q (ex g)"
  shows "Q (chain h) \<Longrightarrow> outcome_sat F Q (run_Filter nx ex f h)"
proof (induction f arbitrary: h)
  case (CallNext k)
  show ?case
  proof (cases "nx h")
    case (Inl x)
    with nx[OF CallNext.prems] show ?thesis by (simp add: outcome_sat_def)
  next
    case (Inr r)
    obtain g e where r: "r = (g, e)" by (cases r)
    with Inr nx[OF CallNext.prems] have "Q (chain g)" by (simp add: outcome_sat_def)
    then have "outcome_sat F Q (run_Filter nx ex (k e) g)" by (rule CallNext.IH[OF rangeI])
    with Inr r show ?thesis by simp
  qed
next
  case (CallExecute k)
  show ?case
  proof (cases "ex h")
    case (Inl x)
    with ex[OF CallExecute.prems] show ?thesis by (simp add: outcome_sat_def)
  next
    case (Inr r)
    obtain g e where r: "r = (g, e)" by (cases r)
    with Inr ex[OF CallExecute.prems] have "Q (chain g)" by (simp add: outcome_sat_def)
    then have "outcome_sat F Q (run_Filter nx ex (k e) g)" by (rule CallExecute.IH[OF rangeI])
    with Inr r show ?thesis by simp
  qed
qed (simp_all add: outcome_sat_def)

lemma run_Filter_cong:
  assumes nx: "\<And>g. Q (chain g) \<Longrightarrow> nx g = nx' g \<and> outcome_sat True Q (nx g)"
    and ex: "\<And>g. Q (chain g) \<Longrightarrow> ex g = ex' g \<and> outcome_sat True Q (ex g)"
  shows "Q (chain h) \<Longrightarrow> run_Filter nx ex f h = run_Filter nx' ex' f h"
proof (induction f arbitrary: h)
  case (CallNext k)
  show ?case
  proof (cases "nx h")
    case (Inl x)
    with nx[OF CallNext.prems] have "nx' h = Inl x" by simp
    with Inl show ?thesis by simp
  next
    case (Inr r)
    obtain g e where r: "r = (g, e)" by (cases r)
    from nx[OF CallNext.prems] have "nx h = nx' h" and "outcome_sat True Q (nx h)"
      by blast+
    with Inr r have "Q (chain g)" and "nx' h = Inr (g, e)"
      by (simp_all add: outcome_sat_def)
    with CallNext.IH[OF rangeI, of g e] Inr r show ?thesis by simp
  qed
next
  case (CallExecute k)
  show ?case
  proof (cases "ex h")
    case (Inl x)
    with ex[OF CallExecute.prems] have "ex' h = Inl x" by simp
    with Inl show ?thesis by simp
  next
    case (Inr r)
    obtain g e where r: "r = (g, e)" by (cases r)
    from ex[OF CallExecute.prems] have "ex h = ex' h" and "outcome_sat True Q (ex h)"
      by blast+
    with Inr r have "Q (chain g)" and "ex' h = Inr (g, e)"
      by (simp_all add: outcome_sat_def)
    with CallExecute.IH[OF rangeI, of g e] Inr r show ?thesis by simp
  qed
qed simp_all

lemma finish_in_turn_sat:
  assumes nx: "\<And>g. Q (chain g) \<Longrightarrow> outcome_sat F Q (nx g)"
    and ex: "\<And>g. Q (chain g) \<Longrightarrow> outcome_sat F Q (ex g)"
  shows "Q (chain h) \<Longrightarrow> outcome_sat F Q (finish_in_turn nx ex fs err h)"
proof (induction fs arbitrary: err h)
  case Nil
  then show ?case by (simp add: outcome_sat_def)
next
  case (Cons f fs)
  have s: "outcome_sat F Q (run_Filter nx ex f h)"
    using nx ex Cons.prems by (rule run_Filter_sat)
  show ?case
  proof (cases "run_Filter nx ex f h")
    case (Inl x)
    with s show ?thesis by (simp add: outcome_sat_def)
  next
    case (Inr r)
    obtain g e where r: "r = (g, e)" by (cases r)
    with Inr s have "Q (chain g)" by (simp add: outcome_sat_def)
    then have "outcome_sat F Q (finish_in_turn nx ex fs (case err of None \<Rightarrow> e | Some e0 \<Rightarrow> Some e0) g)"
      by (rule Cons.IH)
    with Inr r show ?thesis by simp
  qed
qed

lemma finish_in_turn_cong:
  assumes nx: "\<And>g. Q (chain g) \<Longrightarrow> nx g = nx' g \<and> outcome_sat True Q (nx g)"
    and ex: "\<And>g. Q (chain g) \<Longrightarrow> ex g = ex' g \<and> outcome_sat True Q (ex g)"
  shows "Q (chain h) \<Longrightarrow> finish_in_turn nx ex fs err h = finish_in_turn nx' ex' fs err h"
proof (induction fs arbitrary: err h)
  case Nil
  show ?case by simp
next
  case (Cons f fs)
  have eq: "run_Filter nx ex f h = run_Filter nx' ex' f h"
    using nx ex Cons.prems by (rule run_Filter_cong)
  have s: "outcome_sat True Q (run_Filter nx ex f h)"
    using nx ex Cons.prems by (intro run_Filter_sat) blast+
  show ?case
  proof (cases "run_Filter nx ex f h")
    case (Inl x)
    with eq have "run_Filter nx' ex' f h = Inl x" by simp
    with Inl show ?thesis by simp
  next
    case (Inr r)
    obtain g e where r: "r = (g, e)" by (cases r)
    with Inr s have "Q (chain g)" by (simp add: outcome_sat_def)
    then have "finish_in_turn nx ex fs (case err of None \<Rightarrow> e | Some e0 \<Rightarrow> Some e0) g
       = finish_in_turn nx' ex' fs (case err of None \<Rightarrow> e | Some e0 \<Rightarrow> Some e0) g"
      by (rule Cons.IH)
    with Inr r eq show ?thesis by simp
  qed
qed

lemma step_Filter_sat:
  assumes nx: "\<And>g. Q (chain g) \<Longrightarrow> outcome_sat F Q (nx g)"
    and ex: "\<And>g. Q (chain g) \<Longrightarrow> outcome_sat F Q (ex g)"
    and h: "Q (chain h)"
  shows "progress_sat F Q (step_Filter nx ex f h)"
proof (cases f)
  case (CallNext k)
  with nx[OF h] show ?thesis
    by (cases "nx h") (auto simp: step_Filter_def progress_sat_def outcome_sat_def)
next
  case (CallExecute k)
  with ex[OF h] show ?thesis
    by (cases "ex h") (auto simp: step_Filter_def progress_sat_def outcome_sat_def)
qed (use h in \<open>simp_all add: step_Filter_def progress_sat_def\<close>)

lemma step_Filter_cong:
  assumes nx: "\<And>g. Q (chain g) \<Longrightarrow> nx g = nx' g \<and> outcome_sat True Q (nx g)"
    and ex: "\<And>g. Q (chain g) \<Longrightarrow> ex g = ex' g \<and> outcome_sat True Q (ex g)"
    and h: "Q (chain h)"
  shows "step_Filter nx ex f h = step_Filter nx' ex' f h"
proof (cases f)
  case (CallNext k)
  from nx[OF h] have "nx h = nx' h" by blast
  with CallNext show ?thesis by (simp add: step_Filter_def)
next
  case (CallExecute k)
  from ex[OF h] have "ex h = ex' h" by blast
  with CallExecute show ?thesis by (simp add: step_Filter_def)
qed (simp_all add: step_Filter_def)

lemma errgroup_Wait_sat:
  assumes nx: "\<And>g. Q (chain g) \<Longrightarrow> outcome_sat F Q (nx g)"
    and ex: "\<And>g. Q (chain g) \<Longrightarrow> outcome_sat F Q (ex g)"
  shows "Q (chain h) \<Longrightarrow> outcome_sat F Q (errgroup_Wait nx ex cs ts err h)"
proof (induction cs arbitrary: ts err h)
  case Nil
  have "outcome_sat F Q (finish_in_turn nx ex ts err h)"
    using nx ex Nil by (rule finish_in_turn_sat)
  then show ?case by simp
next
  case (Cons k cs)
  show ?case
  proof (cases "ts = []")
    case True
    with Cons.prems show ?thesis by (simp add: outcome_sat_def)
  next
    case False
    let ?j = "k mod length ts"
    have s: "progress_sat F Q (step_Filter nx ex (ts ! ?j) h)"
      using nx ex Cons.prems by (rule step_Filter_sat)
    show ?thesis
    proof (cases "step_Filter nx ex (ts ! ?j) h")
      case (Finished e g)
      with s have "Q (chain g)" by (simp add: progress_sat_def)
      then have "outcome_sat F Q (errgroup_Wait nx ex cs (remove_nth ?j ts)
          (case err of None \<Rightarrow> e | Some e0 \<Rightarrow> Some e0) g)"
        by (rule Cons.IH)
      with False Finished show ?thesis by (simp add: Let_def)
    next
      case (Running f' g)
      with s have "Q (chain g)" by (simp add: progress_sat_def)
      then have "outcome_sat F Q (errgroup_Wait nx ex cs (ts[?j := f']) err g)"
        by (rule Cons.IH)
      with False Running show ?thesis by (simp add: Let_def)
    next
      case (Faulted x)
      with s False show ?thesis by (simp add: Let_def progress_sat_def outcome_sat_def)
    qed
  qed
qed

lemma errgroup_Wait_cong:
  assumes nx: "\<And>g. Q (chain g) \<Longrightarrow> nx g = nx' g \<and> outcome_sat True Q (nx g)"
    and ex: "\<And>g. Q (chain g) \<Longrightarrow> ex g = ex' g \<and> outcome_sat True Q (ex g)"
  shows "Q (chain h) \<Longrightarrow>
         errgroup_Wait nx ex cs ts err h = errgroup_Wait nx' ex' cs ts err h"
proof (induction cs arbitrary: ts err h)
  case Nil
  have "finish_in_turn nx ex ts err h = finish_in_turn nx' ex' ts err h"
    using nx ex Nil by (rule finish_in_turn_cong)
  then show ?case by simp
next
  case (Cons k cs)
  show ?case
  proof (cases "ts = []")
    case True
    then show ?thesis by simp
  next
    case False
    let ?j = "k mod length ts"
    have eq: "step_Filter nx ex (ts ! ?j) h = step_Filter nx' ex' (ts ! ?j) h"
      using nx ex Cons.prems by (rule step_Filter_cong)
    have s: "progress_sat True Q (step_Filter nx ex (ts ! ?j) h)"
      using nx ex Cons.prems by (intro step_Filter_sat) blast+
    show ?thesis
    proof (cases "step_Filter nx ex (ts ! ?j) h")
      case (Finished e g)
      with s have "Q (chain g)" by (simp add: progress_sat_def)
      then have "errgroup_Wait nx ex cs (remove_nth ?j ts)
            (case err of None \<Rightarrow> e | Some e0 \<Rightarrow> Some e0) g =
          errgroup_Wait nx' ex' cs (remove_nth ?j ts)
            (case err of None \<Rightarrow> e | Some e0 \<Rightarrow> Some e0) g"
        by (rule Cons.IH)
      moreover from Finished eq have "step_Filter nx' ex' (ts ! ?j) h = Finished e g" by simp
      ultimately show ?thesis using False Finished by (simp add: Let_def)
    next
      case (Running f' g)
      with s have "Q (chain g)" by (simp add: progress_sat_def)
      then have "errgroup_Wait nx ex cs (ts[?j := f']) err g =
          errgroup_Wait nx' ex' cs (ts[?j := f']) err g"
        by (rule Cons.IH)
      moreover from Running eq have "step_Filter nx' ex' (ts ! ?j) h = Running f' g" by simp
      ultimately show ?thesis using False Running by (simp add: Let_def)
    next
      case (Faulted x)
      moreover from Faulted eq have "step_Filter nx' ex' (ts ! ?j) h = Faulted x" by simp
      ultimately show ?thesis using False by (simp add: Let_def)
    qed
  qed
qed

lemma serialFilter_Execute_body_eq:
  "serialFilter_Execute_body nx ex f h = run_Filter nx ex f h"
  by (simp add: serialFilter_Execute_body_def)

lemma Chain_Next_body_sat:
  assumes ex: "\<And>g. Q (chain g) \<Longrightarrow> outcome_sat F Q (ex g)"
    and ok: "F \<or> (1 \<le> pos (chain h) \<and> pos (chain h) \<le> int (length (filters (chain h))))"
    and h: "Q (chain h)"
  shows "outcome_sat F Q (Chain_Next_body ex h)"
  using ex[OF h] ok h
  by (auto simp: Chain_Next_body_def Let_def outcome_sat_def split: Executer.splits)

lemma Chain_Next_body_cong:
  assumes "ex h = ex' h"
  shows "Chain_Next_body ex h = Chain_Next_body ex' h"
  using assms by (simp add: Chain_Next_body_def Let_def split: Executer.splits)

lemma chain_le_set_done:
  assumes le: "chain_le c c1" and i: "pos c \<le> int i" "i < length (filters c)"
    and st: "filters c ! i = parallelFilter d fs"
  shows "chain_le c (c1\<lparr>filters := (filters c1)[i := parallelFilter True fs]\<rparr>)"
proof -
  have "list_all2 stage_le ((filters c)[i := filters c ! i]) ((filters c1)[i := parallelFilter True fs])"
    using le st by (intro list_all2_update_cong) (simp_all add: chain_le_def)
  moreover have "nat (pos c) \<le> i" using i by simp
  ultimately show ?thesis using le by (simp add: chain_le_def)
qed


lemma chain_le_length: "chain_le c c1 \<Longrightarrow> length (filters c1) = length (filters c)"
  by (auto simp: chain_le_def dest: list_all2_lengthD)

lemma chain_le_remaining: "chain_le c c1 \<Longrightarrow> remaining c1 \<le> remaining c"
  by (frule chain_le_length) (auto simp: chain_le_def remaining_def)

lemma chain_le_sat_trans:
  assumes "outcome_sat F (chain_le (chain g)) out" "chain_le c0 (chain g)"
  shows "outcome_sat F (chain_le c0) out"
  using assms by (auto simp: outcome_sat_def split: sum.splits intro: chain_le_trans)

text \<open>
  Whatever the bound on nested calls, a call of \<^verbatim>\<open>Execute\<close> that returns leads to a later
  chain in the sense of \<open>chain_le\<close>.
\<close>

lemma Execute_fuel_le: "outcome_sat True (chain_le (chain h)) (Execute_fuel sch n h)"
proof (induction n arbitrary: h)
  case 0
  show ?case by (simp add: outcome_sat_def chain_le_refl)
next
  case (Suc n)
  let ?ex = "Execute_fuel sch n"
  let ?nx = "Chain_Next_body ?ex"
  let ?Q = "chain_le (chain h)"
  have ex: "\<And>g. ?Q (chain g) \<Longrightarrow> outcome_sat True ?Q (?ex g)"
    using Suc.IH by (rule chain_le_sat_trans)
  have nx: "\<And>g. ?Q (chain g) \<Longrightarrow> outcome_sat True ?Q (?nx g)"
    using ex by (rule Chain_Next_body_sat) simp_all
  let ?p = "pos (chain h)"
  let ?h' = "h\<lparr>chain := (chain h)\<lparr>pos := ?p + 1\<rparr>\<rparr>"
  show ?case
  proof (cases "0 \<le> ?p \<and> ?p < int (length (filters (chain h)))")
    case False
    then show ?thesis
      by (auto simp: Chain_Execute_body_def Let_def outcome_sat_def chain_le_refl)
  next
    case True
    then have h': "?Q (chain ?h')"
      by (simp add: chain_le_def list_all2_refl stage_le_refl)
    show ?thesis
    proof (cases "filters (chain h) ! nat ?p")
      case (serialFilter f)
      have "outcome_sat True ?Q (run_Filter ?nx ?ex f ?h')"
        using nx ex h' by (rule run_Filter_sat)
      with True serialFilter show ?thesis
        by (simp add: Chain_Execute_body_def Let_def serialFilter_Execute_body_eq)
    next
      case (parallelFilter d fs)
      have w: "outcome_sat True ?Q (errgroup_Wait ?nx ?ex (sch (nat ?p)) fs None ?h')"
        using nx ex h' by (rule errgroup_Wait_sat)
      have "outcome_sat True ?Q (parallelFilter_Execute_body ?nx ?ex sch (nat ?p) fs ?h')"
      proof (cases "errgroup_Wait ?nx ?ex (sch (nat ?p)) fs None ?h'")
        case (Inl x)
        then show ?thesis by (simp add: parallelFilter_Execute_body_def outcome_sat_def)
      next
        case (Inr r)
        obtain h1 e where r: "r = (h1, e)" by (cases r)
        with Inr w have h1: "?Q (chain h1)" by (simp add: outcome_sat_def)
        show ?thesis
        proof (cases e)
          case (Some a)
          with Inr r h1 show ?thesis by (simp add: parallelFilter_Execute_body_def outcome_sat_def)
        next
          case None
          have "pos (chain h) \<le> int (nat ?p)" and "nat ?p < length (filters (chain h))"
            using True by auto
          then have "?Q (chain (set_done (nat ?p) fs h1))"
            unfolding set_done_def using chain_le_set_done[OF h1 _ _ parallelFilter] by simp
          then have "outcome_sat True ?Q (?nx (set_done (nat ?p) fs h1))" by (rule nx)
          with Inr r None show ?thesis by (simp add: parallelFilter_Execute_body_def)
        qed
      qed
      with True parallelFilter show ?thesis
        by (simp add: Chain_Execute_body_def Let_def)
    qed
  qed
qed

lemma outcome_sat_mono:
  assumes "outcome_sat F P out" and "\<And>c. P c \<Longrightarrow> Q c"
  shows "outcome_sat F Q out"
  using assms by (auto simp: outcome_sat_def split: sum.splits)

lemma remaining_set_done [simp]: "remaining (chain (set_done i fs h)) = remaining (chain h)"
  by (simp add: remaining_def set_done_def)

text \<open>
  A bound of as many nested calls as there are stages left is never reached, so a larger
  bound changes nothing, and \<open>Chain_Execute\<close> and \<open>Chain_Next\<close> satisfy the equations
  that the Go methods are written as (\<open>Chain_Execute_unfold\<close>; for \<open>Chain_Next\<close> it is
  its definition).
\<close>

lemma Chain_Execute_body_cong:
  assumes exeq: "\<And>g. remaining (chain g) \<le> k \<Longrightarrow> ex g = ex' g"
    and exle: "\<And>g. outcome_sat True (chain_le (chain g)) (ex g)"
    and rem: "remaining (chain h) \<le> Suc k"
  shows "Chain_Execute_body (Chain_Next_body ex) ex sch h =
         Chain_Execute_body (Chain_Next_body ex') ex' sch h"
proof -
  let ?Q = "\<lambda>c. remaining c \<le> k"
  let ?nx = "Chain_Next_body ex" and ?nx' = "Chain_Next_body ex'"
  have exs: "\<And>g. ?Q (chain g) \<Longrightarrow> outcome_sat True ?Q (ex g)"
    using exle by (rule outcome_sat_mono) (auto dest: chain_le_remaining)
  have exQ: "\<And>g. ?Q (chain g) \<Longrightarrow> ex g = ex' g \<and> outcome_sat True ?Q (ex g)"
    using exeq exs by blast
  have nxs: "\<And>g. ?Q (chain g) \<Longrightarrow> outcome_sat True ?Q (?nx g)"
    using exs by (rule Chain_Next_body_sat) simp_all
  have nxQ: "\<And>g. ?Q (chain g) \<Longrightarrow> ?nx g = ?nx' g \<and> outcome_sat True ?Q (?nx g)"
    using exeq nxs Chain_Next_body_cong by blast
  let ?p = "pos (chain h)"
  let ?h' = "h\<lparr>chain := (chain h)\<lparr>pos := ?p + 1\<rparr>\<rparr>"
  show ?thesis
  proof (cases "0 \<le> ?p \<and> ?p < int (length (filters (chain h)))")
    case False
    then show ?thesis by (auto simp: Chain_Execute_body_def Let_def)
  next
    case True
    with rem have h': "?Q (chain ?h')" by (auto simp: remaining_def)
    show ?thesis
    proof (cases "filters (chain h) ! nat ?p")
      case (serialFilter f)
      have "run_Filter ?nx ex f ?h' = run_Filter ?nx' ex' f ?h'"
        using nxQ exQ h' by (rule run_Filter_cong)
      with True serialFilter show ?thesis
        by (simp add: Chain_Execute_body_def Let_def serialFilter_Execute_body_eq)
    next
      case (parallelFilter d fs)
      have eq: "errgroup_Wait ?nx ex (sch (nat ?p)) fs None ?h' = errgroup_Wait ?nx' ex' (sch (nat ?p)) fs None ?h'"
        using nxQ exQ h' by (rule errgroup_Wait_cong)
      have w: "outcome_sat True ?Q (errgroup_Wait ?nx ex (sch (nat ?p)) fs None ?h')"
        using nxs exs h' by (rule errgroup_Wait_sat)
      have "parallelFilter_Execute_body ?nx ex sch (nat ?p) fs ?h' =
            parallelFilter_Execute_body ?nx' ex' sch (nat ?p) fs ?h'"
      proof (cases "errgroup_Wait ?nx ex (sch (nat ?p)) fs None ?h'")
        case (Inl x)
        with eq have "errgroup_Wait ?nx' ex' (sch (nat ?p)) fs None ?h' = Inl x" by simp
        with Inl show ?thesis by (simp add: parallelFilter_Execute_body_def)
      next
        case (Inr r)
        obtain h1 e where r: "r = (h1, e)" by (cases r)
        with Inr eq have Inr': "errgroup_Wait ?nx' ex' (sch (nat ?p)) fs None ?h' = Inr (h1, e)" by simp
        from Inr r w have "?Q (chain h1)" by (simp add: outcome_sat_def)
        then have "?Q (chain (set_done (nat ?p) fs h1))" by simp
        then have "?nx (set_done (nat ?p) fs h1) = ?nx' (set_done (nat ?p) fs h1)"
          using nxQ by blast
        with Inr r Inr' show ?thesis
          by (simp add: parallelFilter_Execute_body_def split: option.splits)
      qed
      with True parallelFilter show ?thesis
        by (simp add: Chain_Execute_body_def Let_def)
    qed
  qed
qed

lemma Execute_fuel_exhausted:
  assumes "remaining (chain h) = 0"
  shows "Execute_fuel sch n h = Inr (h, None)"
proof -
  have "\<not> pos (chain h) < int (length (filters (chain h)))"
    using assms by (simp add: remaining_def)
  then show ?thesis
    by (cases n) (simp_all add: Chain_Execute_body_def Let_def)
qed

lemma Execute_fuel_more:
  "remaining (chain h) \<le> n \<Longrightarrow> n \<le> m \<Longrightarrow> Execute_fuel sch m h = Execute_fuel sch n h"
proof (induction n arbitrary: m h)
  case 0
  then have "remaining (chain h) = 0" by simp
  then show ?case by (simp only: Execute_fuel_exhausted)
next
  case (Suc k)
  then obtain j where m: "m = Suc j" and kj: "k \<le> j" by (cases m) auto
  have "Chain_Execute_body (Chain_Next_body (Execute_fuel sch j)) (Execute_fuel sch j) sch h =
        Chain_Execute_body (Chain_Next_body (Execute_fuel sch k)) (Execute_fuel sch k) sch h"
    using Suc.IH[OF _ kj] Execute_fuel_le Suc.prems(1) by (rule Chain_Execute_body_cong)
  with m show ?case by simp
qed

lemma Chain_Execute_fuel:
  "remaining (chain h) \<le> n \<Longrightarrow> Execute_fuel sch n h = Chain_Execute sch h"
  unfolding Chain_Execute_def by (rule Execute_fuel_more) simp_all

lemma Chain_Execute_le: "outcome_sat True (chain_le (chain h)) (Chain_Execute sch h)"
  unfolding Chain_Execute_def by (rule Execute_fuel_le)

lemma Chain_Execute_unfold:
  "Chain_Execute sch h = Chain_Execute_body (Chain_Next sch) (Chain_Execute sch) sch h"
proof (cases "remaining (chain h)")
  case 0
  then have "\<not> pos (chain h) < int (length (filters (chain h)))"
    by (simp add: remaining_def)
  with 0 show ?thesis
    by (simp add: Chain_Execute_def Chain_Execute_body_def)
next
  case (Suc k)
  have nx: "Chain_Next_body (Chain_Execute sch) = Chain_Next sch"
    by (rule ext) (simp add: Chain_Next_def)
  have "Chain_Execute sch h =
        Chain_Execute_body (Chain_Next_body (Execute_fuel sch k)) (Execute_fuel sch k) sch h"
    using Suc by (simp add: Chain_Execute_def)
  also have "\<dots> =
        Chain_Execute_body (Chain_Next_body (Chain_Execute sch)) (Chain_Execute sch) sch h"
    using Chain_Execute_fuel Execute_fuel_le
  proof (rule Chain_Execute_body_cong)
    show "remaining (chain h) \<le> Suc k" using Suc by simp
  qed
  finally show ?thesis unfolding nx .
qed

text \<open>
  From a state whose cursor is not negative \<^verbatim>\<open>Execute\<close> returns, and from a state whose
  cursor is between 1 and the number of stages \<^verbatim>\<open>Next\<close> returns: neither a panic nor the
  bound on nested calls is met.
\<close>

lemma outcome_sat_conj:
  assumes "outcome_sat F P out" and "outcome_sat True P' out"
  shows "outcome_sat F (\<lambda>c. P c \<and> P' c) out"
  using assms by (auto simp: outcome_sat_def split: sum.splits)

lemma in_run_chain_le: "in_run n c \<Longrightarrow> chain_le c c' \<Longrightarrow> in_run n c'"
  by (frule chain_le_length, frule chain_le_remaining) (auto simp: in_run_def chain_le_def)

lemma in_run_set_done: "in_run n (chain h) \<Longrightarrow> in_run n (chain (set_done i fs h))"
  by (simp add: in_run_def set_done_def remaining_def)

lemma Execute_fuel_returns:
  fixes h :: "('a, 'e) heap"
  shows "0 \<le> pos (chain h) \<Longrightarrow> remaining (chain h) \<le> n \<Longrightarrow>
   outcome_sat False (\<lambda>c. True) (Execute_fuel sch n h)"
proof (induction n arbitrary: h)
  case 0
  then have "\<not> pos (chain h) < int (length (filters (chain h)))"
    by (simp add: remaining_def)
  then show ?case by (simp add: outcome_sat_def)
next
  case (Suc n)
  let ?ex = "Execute_fuel sch n"
  let ?nx = "Chain_Next_body ?ex"
  let ?Q = "in_run n"
  have ex: "outcome_sat False ?Q (?ex g)" if g: "?Q (chain g)" for g :: "('a, 'e) heap"
  proof -
    have "outcome_sat False (\<lambda>c. True) (?ex g)"
      by (rule Suc.IH) (use g in \<open>simp_all add: in_run_def\<close>)
    then have "outcome_sat False (\<lambda>c. True \<and> chain_le (chain g) c) (?ex g)"
      using Execute_fuel_le by (rule outcome_sat_conj)
    then show ?thesis
      by (rule outcome_sat_mono) (use g in_run_chain_le in blast)
  qed
  have nx: "outcome_sat False ?Q (?nx g)" if g: "?Q (chain g)" for g :: "('a, 'e) heap"
  proof (rule Chain_Next_body_sat)
    show "?Q (chain g)" by fact
    show "False \<or> (1 \<le> pos (chain g) \<and> pos (chain g) \<le> int (length (filters (chain g))))"
      using g by (simp add: in_run_def)
    show "outcome_sat False ?Q (?ex g')" if "?Q (chain g')" for g' :: "('a, 'e) heap"
      using that by (rule ex)
  qed
  let ?p = "pos (chain h)"
  let ?h' = "h\<lparr>chain := (chain h)\<lparr>pos := ?p + 1\<rparr>\<rparr>"
  show ?case
  proof (cases "?p < int (length (filters (chain h)))")
    case False
    then show ?thesis
      by (simp add: Chain_Execute_body_def Let_def outcome_sat_def)
  next
    case True
    with Suc.prems have h': "?Q (chain ?h')"
      by (auto simp: in_run_def remaining_def)
    have "outcome_sat False ?Q (Execute_fuel sch (Suc n) h)"
    proof (cases "filters (chain h) ! nat ?p")
      case (serialFilter f)
      have "outcome_sat False ?Q (run_Filter ?nx ?ex f ?h')"
        using nx ex h' by (rule run_Filter_sat)
      with True Suc.prems(1) serialFilter show ?thesis
        by (simp add: Chain_Execute_body_def Let_def serialFilter_Execute_body_eq)
    next
      case (parallelFilter d fs)
      have w: "outcome_sat False ?Q (errgroup_Wait ?nx ?ex (sch (nat ?p)) fs None ?h')"
        using nx ex h' by (rule errgroup_Wait_sat)
      have "outcome_sat False ?Q (parallelFilter_Execute_body ?nx ?ex sch (nat ?p) fs ?h')"
      proof (cases "errgroup_Wait ?nx ?ex (sch (nat ?p)) fs None ?h'")
        case (Inl x)
        with w show ?thesis by (simp add: outcome_sat_def)
      next
        case (Inr r)
        obtain h1 e where r: "r = (h1, e)" by (cases r)
        with Inr w have h1: "?Q (chain h1)" by (simp add: outcome_sat_def)
        show ?thesis
        proof (cases e)
          case (Some a)
          with Inr r h1 show ?thesis by (simp add: parallelFilter_Execute_body_def outcome_sat_def)
        next
          case None
          have "?Q (chain (set_done (nat ?p) fs h1))" using h1 by (rule in_run_set_done)
          then have "outcome_sat False ?Q (?nx (set_done (nat ?p) fs h1))" by (rule nx)
          with Inr r None show ?thesis by (simp add: parallelFilter_Execute_body_def)
        qed
      qed
      with True Suc.prems(1) parallelFilter show ?thesis
        by (simp add: Chain_Execute_body_def Let_def)
    qed
    then show ?thesis by (rule outcome_sat_mono) simp
  qed
qed

lemma outcome_sat_FalseD:
  "outcome_sat False Q out \<Longrightarrow> \<exists>h' e. out = Inr (h', e) \<and> Q (chain h')"
  by (cases out) (auto simp: outcome_sat_def)

lemma Chain_Execute_returns:
  assumes "0 \<le> pos (chain h)"
  shows "\<exists>h' e. Chain_Execute sch h = Inr (h', e) \<and> chain_le (chain h) (chain h')"
proof -
  have "outcome_sat False (\<lambda>c. True) (Chain_Execute sch h)"
    unfolding Chain_Execute_def using assms by (rule Execute_fuel_returns) simp
  then have "outcome_sat False (\<lambda>c. True \<and> chain_le (chain h) c) (Chain_Execute sch h)"
    using Chain_Execute_le by (rule outcome_sat_conj)
  then show ?thesis by (auto dest: outcome_sat_FalseD)
qed


lemma Chain_Next_returns:
  assumes "1 \<le> pos (chain h)" "pos (chain h) \<le> int (length (filters (chain h)))"
  shows "\<exists>h' e. Chain_Next sch h = Inr (h', e) \<and> chain_le (chain h) (chain h')"
proof -
  have "0 \<le> pos (chain h)" using assms by simp
  from Chain_Execute_returns[OF this, of sch] obtain h' e where
    "Chain_Execute sch h = Inr (h', e)" "chain_le (chain h) (chain h')" by blast
  with assms show ?thesis
    by (auto simp: Chain_Next_def Chain_Next_body_def Let_def chain_le_refl split: Executer.splits)
qed

lemma Chain_Execute_run:
  assumes "0 \<le> pos (chain h)" "pos (chain h) < int (length (filters (chain h)))"
  shows "Chain_Execute sch h =
         Executer_Execute sch (nat (pos (chain h))) (filters (chain h) ! nat (pos (chain h))) (advance h)"
  using assms
  by (subst Chain_Execute_unfold)
     (simp add: Chain_Execute_body_def Executer_Execute_def advance_def Let_def
        serialFilter_Execute_def parallelFilter_Execute_def split: Executer.splits)

lemma Chain_Execute_exhausted:
  assumes "int (length (filters (chain h))) \<le> pos (chain h)"
  shows "Chain_Execute sch h = Inr (h, None)"
  using assms by (subst Chain_Execute_unfold) (simp add: Chain_Execute_body_def)


lemma run_Filter_no_calls:
  "no_calls f \<Longrightarrow> \<exists>h' e. run_Filter nx ex f h = Inr (h', e) \<and> chain h' = chain h"
proof (induction f arbitrary: h)
  case (StorePut k v f)
  then have "no_calls f" by simp
  from StorePut.IH[OF this, of "h\<lparr>store := Store_Put (store h) k v\<rparr>"]
  show ?case by simp
next
  case (StoreGet k f)
  then have "no_calls (f (Store_Get (store h) k))"
    by (cases "Store_Get (store h) k") simp
  from StoreGet.IH[OF rangeI this, of h] show ?case by simp
next
  case (Modify g f)
  then have "no_calls f" by simp
  from Modify.IH[OF this, of "h\<lparr>env := g (env h)\<rparr>"] show ?case by simp
next
  case (Inspect f)
  then have "no_calls (f (env h))" by simp
  from Inspect.IH[OF rangeI this, of h] show ?case by simp
qed simp_all






lemma Chain_Execute_no_OutOfFuel: "Chain_Execute sch h \<noteq> Inl OutOfFuel"
proof (cases "0 \<le> pos (chain h)")
  case True
  from Chain_Execute_returns[OF this, of sch] show ?thesis by auto
next
  case False
  then have "pos (chain h) < int (length (filters (chain h)))" by simp
  with False have "Chain_Execute sch h = Inl Panic"
    by (subst Chain_Execute_unfold) (simp add: Chain_Execute_body_def)
  then show ?thesis by simp
qed

lemma Chain_Next_no_OutOfFuel: "Chain_Next sch h \<noteq> Inl OutOfFuel"
  using Chain_Execute_no_OutOfFuel[of sch h]
  by (simp add: Chain_Next_def Chain_Next_body_def Let_def split: Executer.splits)

section \<open>Parallel stages\<close>





































section \<open>The claims\<close>



text \<open>
  Claim C8. \<^verbatim>\<open>AddParallelFilters\<close> with no filter returns the chain unchanged; with one
  filter it appends one serial stage wrapping that filter; with two or more it appends one
  parallel stage that owns all of them in the given order, its completion flag false.
\<close>
theorem C8_AddParallelFilters:
  "AddParallelFilters c [] = c \<and>
   AddParallelFilters c [f] = c\<lparr>filters := filters c @ [serialFilter f]\<rparr> \<and>
   (2 \<le> length fs \<longrightarrow>
      AddParallelFilters c fs = c\<lparr>filters := filters c @ [parallelFilter False fs]\<rparr>)"
  by (auto simp: AddParallelFilters_def split: list.splits)

theorem C8_AddParallelFilters_witness:
  "AddParallelFilters (chain serial_heap) [] = chain serial_heap \<and>
   filters (AddParallelFilters (chain serial_heap) [counting_filter])
     = [serialFilter failing_filter, serialFilter counting_filter] \<and>
   filters (AddParallelFilters (chain serial_heap) [counting_filter, failing_filter, counting_filter])
     = [serialFilter failing_filter,
        parallelFilter False [counting_filter, failing_filter, counting_filter]]"
  using C8_AddParallelFilters[of "chain serial_heap" counting_filter
      "[counting_filter, failing_filter, counting_filter]"]
  by (simp add: serial_heap_def)

text \<open>
  Claim C2. When the cursor is below the number of stages, \<^verbatim>\<open>Execute\<close> adds one to the
  cursor and then runs the stage that was at the old cursor position; what that stage
  returns (its error included) is what \<^verbatim>\<open>Execute\<close> returns. When the cursor is at or
  beyond the number of stages, \<^verbatim>\<open>Execute\<close> returns \<^verbatim>\<open>nil\<close> and changes nothing. (A
  cursor below zero is outside the chain's data model; there the Go code panics on the
  index.)
\<close>
theorem C2_Chain_Execute:
  "(0 \<le> pos (chain h) \<and> pos (chain h) < int (length (filters (chain h))) \<longrightarrow>
      pos (chain (advance h)) = pos (chain h) + 1 \<and>
      Chain_Execute sch h =
        Executer_Execute sch (nat (pos (chain h))) (filters (chain h) ! nat (pos (chain h)))
          (advance h)) \<and>
   (int (length (filters (chain h))) \<le> pos (chain h) \<longrightarrow> Chain_Execute sch h = Inr (h, None))"
  by (simp add: Chain_Execute_run Chain_Execute_exhausted) (simp add: advance_def)

theorem C2_Chain_Execute_witness:
  "Chain_Execute sched0 serial_heap =
     Inr (advance serial_heap, Some (Error ''filter execution failed'')) \<and>
   pos (chain (advance serial_heap)) = 1 \<and>
   Chain_Execute sched0 (advance serial_heap) = Inr (advance serial_heap, None)"
  using C2_Chain_Execute[of serial_heap sched0] C2_Chain_Execute[of "advance serial_heap" sched0]
  by (simp add: serial_heap_def advance_def Executer_Execute_def serialFilter_Execute_def
      serialFilter_Execute_body_def failing_filter_def)

text \<open>
  Claim C1. With the cursor at least 1 (and, as in every chain of the data model, at most
  the number of stages), \<^verbatim>\<open>Next\<close> looks at the stage at \<open>cursor - 1\<close>. If that is a
  parallel stage whose completion flag is false, \<^verbatim>\<open>Next\<close> returns \<^verbatim>\<open>nil\<close> and leaves
  the state as it is; if the flag is true, or the stage is a serial one, \<^verbatim>\<open>Next\<close> is
  \<^verbatim>\<open>Execute\<close>.
\<close>
theorem C1_Chain_Next:
  assumes "1 \<le> pos (chain h)" and "pos (chain h) \<le> int (length (filters (chain h)))"
  shows "Chain_Next sch h =
         (case filters (chain h) ! nat (pos (chain h) - 1) of
            parallelFilter d fs \<Rightarrow> if d then Chain_Execute sch h else Inr (h, None)
          | serialFilter f \<Rightarrow> Chain_Execute sch h)"
  using assms by (simp add: Chain_Next_def Chain_Next_body_def)

theorem C1_Chain_Next_witness:
  "Chain_Next sched0 (parallel_heap False) = Inr (parallel_heap False, None) \<and>
   Chain_Next sched0 (parallel_heap True) = Chain_Execute sched0 (parallel_heap True) \<and>
   Chain_Next sched0 (advance serial_heap) = Chain_Execute sched0 (advance serial_heap)"
  using C1_Chain_Next[of "parallel_heap False" sched0] C1_Chain_Next[of "parallel_heap True" sched0]
    C1_Chain_Next[of "advance serial_heap" sched0]
  by (simp add: parallel_heap_def serial_heap_def advance_def)

text \<open>
  Claim C7. \<^verbatim>\<open>Next\<close> indexes the stages at \<open>cursor - 1\<close>. On a new chain (cursor 0),
  and whenever the cursor is below 1 or above the number of stages, the index is out of
  range and \<^verbatim>\<open>Next\<close> panics; with the cursor between 1 and the number of stages the
  index is in range, and \<^verbatim>\<open>Next\<close> returns (nothing it calls panics either).
\<close>
theorem C7_Chain_Next_bounds:
  "(case New ctx of (c, s) \<Rightarrow> Chain_Next sch (h\<lparr>chain := c, store := s\<rparr>) = Inl Panic) \<and>
   (pos (chain h) < 1 \<or> int (length (filters (chain h))) < pos (chain h) \<longrightarrow>
      Chain_Next sch h = Inl Panic) \<and>
   (1 \<le> pos (chain h) \<and> pos (chain h) \<le> int (length (filters (chain h))) \<longrightarrow>
      (\<exists>h' e. Chain_Next sch h = Inr (h', e)))"
proof (intro conjI impI)
  show "case New ctx of (c, s) \<Rightarrow> Chain_Next sch (h\<lparr>chain := c, store := s\<rparr>) = Inl Panic"
    by (simp add: New_def Chain_Next_def Chain_Next_body_def)
next
  assume "pos (chain h) < 1 \<or> int (length (filters (chain h))) < pos (chain h)"
  then show "Chain_Next sch h = Inl Panic"
    by (auto simp: Chain_Next_def Chain_Next_body_def)
next
  assume "1 \<le> pos (chain h) \<and> pos (chain h) \<le> int (length (filters (chain h)))"
  then show "\<exists>h' e. Chain_Next sch h = Inr (h', e)"
    using Chain_Next_returns[of h sch] by blast
qed

theorem C7_Chain_Next_bounds_witness:
  "Chain_Next sched0 fresh_heap = Inl Panic \<and>
   Chain_Next sched0 serial_heap = Inl Panic \<and>
   Chain_Next sched0 (advance (advance serial_heap)) = Inl Panic \<and>
   (\<exists>h' e. Chain_Next sched0 (advance serial_heap) = Inr (h', e))"
  using C7_Chain_Next_bounds[where ctx = None and sch = sched0 and h = serial_heap]
    C7_Chain_Next_bounds[where ctx = None and sch = sched0 and h = "advance (advance serial_heap)"]
    C7_Chain_Next_bounds[where ctx = None and sch = sched0 and h = "advance serial_heap"]
  by (simp add: serial_heap_def advance_def fresh_heap_def New_def)

text \<open>
  Claim C10. A serial stage that wraps the filter \<open>f\<close> returns what \<open>f\<close> returns, the
  error as it is, and does to the state what \<open>f\<close> does and nothing else: a filter that
  returns at once leaves the whole state as it is, and a filter that calls neither
  \<^verbatim>\<open>Next\<close> nor \<^verbatim>\<open>Execute\<close> leaves the chain (cursor and stages) as it is.
\<close>
theorem C10_serialFilter_Execute:
  "serialFilter_Execute sch f h = run_Filter (Chain_Next sch) (Chain_Execute sch) f h \<and>
   serialFilter_Execute sch (Return err) h = Inr (h, err) \<and>
   (no_calls f \<longrightarrow>
      (\<exists>h' e. serialFilter_Execute sch f h = Inr (h', e) \<and> chain h' = chain h))"
  using run_Filter_no_calls[of f "Chain_Next sch" "Chain_Execute sch" h]
  by (auto simp: serialFilter_Execute_def serialFilter_Execute_body_eq)

theorem C10_serialFilter_Execute_witness:
  "serialFilter_Execute sched0 failing_filter serial_heap =
     Inr (serial_heap, Some (Error ''filter execution failed'')) \<and>
   (\<exists>h' e. serialFilter_Execute sched0 (StorePut ''Key'' (Val 1) (Return None)) serial_heap
       = Inr (h', e) \<and> chain h' = chain serial_heap)"
  using C10_serialFilter_Execute[of sched0 failing_filter serial_heap "Some (Error ''filter execution failed'')"]
    C10_serialFilter_Execute[of sched0 "StorePut ''Key'' (Val 1) (Return None)" serial_heap None]
  by (simp add: failing_filter_def)









end
